theory Spec2Isabelle
  imports Complex_Main
begin

section \<open>The store (store/aslStore)\<close>

text \<open>
  The zustand store of the application. JavaScript numbers are modelled by \<open>real\<close> where they
  carry a confidence and by \<open>int\<close> where they carry milliseconds; \<open>NaN\<close> is outside the model
  (the sliders that call the setters only deliver finite numbers). The \<open>status\<close> string is a
  display text that nothing reads back, and it is left out.
\<close>

record store =
  text' :: string
  recognizedLabel :: "string option"
  confidence :: "real option"
  threshold :: real
  cameraOn :: bool
  holdMs :: int


definition setRecognition :: "string \<Rightarrow> real \<Rightarrow> ('a store_scheme) \<Rightarrow> ('a store_scheme)" where
  "setRecognition label conf s = s\<lparr>recognizedLabel := Some label, confidence := Some conf\<rparr>"

definition appendText :: "string \<Rightarrow> ('a store_scheme) \<Rightarrow> ('a store_scheme)" where
  "appendText t s = s\<lparr>text' := text' s @ t\<rparr>"





text \<open>The store as \<open>create\<close> builds it; \<open>savedText\<close> is what local storage held.\<close>

definition useAslStore :: "string \<Rightarrow> store" where
  "useAslStore savedText =
     \<lparr>text' = savedText, recognizedLabel = None, confidence = None,
      threshold = 0.95, cameraOn = True, holdMs = 600\<rparr>"




section \<open>The commit loop (components/ASLTranslator)\<close>

definition LETTER_GAP_MS :: int where
  "LETTER_GAP_MS = 3000"

definition RELEASE_MS :: int where
  "RELEASE_MS = 300"

text \<open>
  Strings are ASCII here. \<open>toUpperCase\<close> maps the letters a to z and leaves every other
  character alone; \<open>trim\<close> removes white space (tab, line feed, vertical tab, form feed,
  carriage return, space) at both ends.
\<close>

definition toUpperChar :: "char \<Rightarrow> char" where
  "toUpperChar c =
     (if (97::nat) \<le> of_char c \<and> of_char c \<le> (122::nat) then char_of (of_char c - (32::nat)) else c)"

definition toUpperCase :: "string \<Rightarrow> string" where
  "toUpperCase s = map toUpperChar s"

definition isWhiteSpace :: "char \<Rightarrow> bool" where
  "isWhiteSpace c \<longleftrightarrow> (9::nat) \<le> of_char c \<and> of_char c \<le> (13::nat) \<or> of_char c = (32::nat)"

definition trim :: "string \<Rightarrow> string" where
  "trim s = rev (dropWhile isWhiteSpace (rev (dropWhile isWhiteSpace s)))"

text \<open>
  The refs of the component that the loop reads and writes, on top of the store. A label ref
  holds \<open>[]\<close> and a time ref holds \<open>0\<close> when it is unset, as in the source.
  \<open>letterGapTimerRef\<close> stands for the ref together with the browser's timer it names: it
  is \<open>Some d\<close> while a timeout is pending that comes due at instant \<open>d\<close>, and \<open>None\<close>
  when none is (never set, cleared, or already run).
\<close>

record app = store +
  lastDetectedLabelRef :: string
  stableSinceRef :: int
  lastEmittedLabelRef :: string
  releaseStartRef :: int
  letterGapTimerRef :: "int option"
  lastWordBoundaryTimeRef :: int

definition ASLTranslator :: "string \<Rightarrow> app" where
  "ASLTranslator savedText =
     store.extend (useAslStore savedText)
       (app.fields [] 0 [] 0 None 0)"

text \<open>
  One pass of \<open>loop\<close> once the model has predicted: \<open>className\<close> and \<open>probability\<close> are
  those of the best prediction, \<open>now\<close> is \<open>Date.now()\<close>. \<open>hold\<close> is the \<open>holdMs\<close> the
  closure of \<open>loop\<close> captured. The result pairs the new state with the argument of the
  call of \<open>appendText\<close>, if there was one.
\<close>

definition loop :: "int \<Rightarrow> string \<Rightarrow> real \<Rightarrow> int \<Rightarrow> app \<Rightarrow> app \<times> string option" where
  "loop hold className probability now s =
    (let conf = probability;
         label = trim className;
         thr = threshold s
     in if conf \<ge> thr then
          let s1 = (if lastDetectedLabelRef s \<noteq> label
                    then s\<lparr>lastDetectedLabelRef := label, stableSinceRef := now\<rparr>
                    else s);
              s2 = setRecognition label conf s1;
              heldLongEnough = (now - stableSinceRef s2 \<ge> hold);
              released = (releaseStartRef s2 > 0 \<and> now - releaseStartRef s2 \<ge> RELEASE_MS)
          in if (label \<noteq> lastEmittedLabelRef s2 \<or> released) \<and> heldLongEnough then
               (appendText (toUpperCase label) s2
                  \<lparr>lastEmittedLabelRef := label,
                   releaseStartRef := 0,
                   letterGapTimerRef := Some (now + LETTER_GAP_MS)\<rparr>,
                Some (toUpperCase label))
             else (s2, None)
        else
          (s\<lparr>releaseStartRef := (if releaseStartRef s = 0 then now else releaseStartRef s),
             lastDetectedLabelRef := [],
             stableSinceRef := 0\<rparr>,
           None))"

text \<open>
  The callback of the letter gap timeout, run at instant \<open>now\<close>. The browser runs it only
  when the timeout is pending and due; otherwise nothing happens.
\<close>

definition letterGapTimeout :: "int \<Rightarrow> app \<Rightarrow> app \<times> string option" where
  "letterGapTimeout now s =
    (case letterGapTimerRef s of
       None \<Rightarrow> (s, None)
     | Some d \<Rightarrow>
         if now < d then (s, None)
         else
           let s1 = s\<lparr>letterGapTimerRef := None\<rparr>;
               current = text' s1
           in if current \<noteq> [] \<and> \<not> (last current = CHR '' '') then
                (appendText '' '' s1\<lparr>lastWordBoundaryTimeRef := now\<rparr>, Some '' '')
              else (s1, None))"

text \<open>What happens to the component: a pass of the loop, or the timeout coming due.\<close>

datatype event = Tick string real int | Timeout int

fun step :: "int \<Rightarrow> app \<Rightarrow> event \<Rightarrow> app \<times> string option" where
  "step hold s (Tick className probability now) = loop hold className probability now s"
| "step hold s (Timeout now) = letterGapTimeout now s"

text \<open>The state after a sequence of events.\<close>

fun run :: "int \<Rightarrow> app \<Rightarrow> event list \<Rightarrow> app" where
  "run hold s [] = s"
| "run hold s (e # es) = run hold (fst (step hold s e)) es"

text \<open>
  What a sequence of events appends to the text: \<open>emitted\<close> lists the calls of
  \<open>appendText\<close> that the loop makes (the commits), \<open>boundaries\<close> those that the timeout
  makes, each with the instant of its event.
\<close>

fun emitted :: "int \<Rightarrow> app \<Rightarrow> event list \<Rightarrow> (int \<times> string) list" where
  "emitted hold s [] = []"
| "emitted hold s (e # es) =
     (case e of
        Tick className probability now \<Rightarrow>
          (case snd (step hold s e) of None \<Rightarrow> [] | Some t \<Rightarrow> [(now, t)])
      | Timeout now \<Rightarrow> []) @
     emitted hold (fst (step hold s e)) es"

fun boundaries :: "int \<Rightarrow> app \<Rightarrow> event list \<Rightarrow> (int \<times> string) list" where
  "boundaries hold s [] = []"
| "boundaries hold s (e # es) =
     (case e of
        Tick className probability now \<Rightarrow> []
      | Timeout now \<Rightarrow>
          (case snd (step hold s e) of None \<Rightarrow> [] | Some t \<Rightarrow> [(now, t)])) @
     boundaries hold (fst (step hold s e)) es"

section \<open>Vocabulary of the properties\<close>

fun instant :: "event \<Rightarrow> int" where
  "instant (Tick className probability now) = now"
| "instant (Timeout now) = now"

text \<open>A tick that reports the label \<open>L\<close> with a confidence at or above the threshold.\<close>

fun reports :: "real \<Rightarrow> string \<Rightarrow> event \<Rightarrow> bool" where
  "reports thr L (Tick className probability now) \<longleftrightarrow> trim className = L \<and> thr \<le> probability"
| "reports thr L (Timeout now) \<longleftrightarrow> False"

text \<open>The same, in a sequence where the timeout may come due between the ticks.\<close>

fun sign_held :: "real \<Rightarrow> string \<Rightarrow> event \<Rightarrow> bool" where
  "sign_held thr L (Tick className probability now) \<longleftrightarrow> trim className = L \<and> thr \<le> probability"
| "sign_held thr L (Timeout now) \<longleftrightarrow> True"

text \<open>A tick with a confidence below the threshold.\<close>

fun below :: "real \<Rightarrow> event \<Rightarrow> bool" where
  "below thr (Tick className probability now) \<longleftrightarrow> probability < thr"
| "below thr (Timeout now) \<longleftrightarrow> False"

text \<open>The two tests of the loop, read on a state whose tracking refs are up to date.\<close>

definition released :: "app \<Rightarrow> int \<Rightarrow> bool" where
  "released s now \<longleftrightarrow> 0 < releaseStartRef s \<and> RELEASE_MS \<le> now - releaseStartRef s"

definition commits :: "int \<Rightarrow> string \<Rightarrow> app \<Rightarrow> int \<Rightarrow> bool" where
  "commits hold L s now \<longleftrightarrow>
     hold \<le> now - stableSinceRef s \<and> (L \<noteq> lastEmittedLabelRef s \<or> released s now)"

text \<open>
  The instant since which \<open>L\<close> is tracked during a run of ticks that all report \<open>L\<close>:
  the one in the ref when \<open>L\<close> is tracked already, else that of the first tick. \<open>tracking\<close>
  is the state with the refs set so.
\<close>

definition trackedSince :: "string \<Rightarrow> event list \<Rightarrow> app \<Rightarrow> int" where
  "trackedSince L evs s =
     (if lastDetectedLabelRef s = L then stableSinceRef s else instant (hd evs))"

definition tracking :: "string \<Rightarrow> event list \<Rightarrow> app \<Rightarrow> app" where
  "tracking L evs s =
     (if lastDetectedLabelRef s = L \<or> evs = [] then s
      else s\<lparr>lastDetectedLabelRef := L, stableSinceRef := instant (hd evs)\<rparr>)"


text \<open>A tick with a confidence at or above the threshold.\<close>

fun confident :: "real \<Rightarrow> event \<Rightarrow> bool" where
  "confident thr (Tick className probability now) \<longleftrightarrow> thr \<le> probability"
| "confident thr (Timeout now) \<longleftrightarrow> False"

text \<open>
  The longest stretch of time between two consecutive ticks at or above the threshold in
  a sequence of events. No interval longer than that is free of such ticks, so this bounds
  every period during which the confidence stays below the threshold.
\<close>

fun longest_gap :: "int list \<Rightarrow> int" where
  "longest_gap (a # b # ts) = max (b - a) (longest_gap (b # ts))"
| "longest_gap ts = 0"

definition longest_release :: "real \<Rightarrow> event list \<Rightarrow> int" where
  "longest_release thr evs = longest_gap (map instant (filter (confident thr) evs))"

text \<open>The instant of the latest commit in a sequence of events, if there is one.\<close>

definition latestCommit :: "int \<Rightarrow> app \<Rightarrow> event list \<Rightarrow> int option" where
  "latestCommit hold s evs =
     (case emitted hold s evs of [] \<Rightarrow> None | c # cs \<Rightarrow> Some (fst (last (c # cs))))"

text \<open>The tracked label and the instant it is tracked since are set together.\<close>

definition trackingInvariant :: "app \<Rightarrow> bool" where
  "trackingInvariant s \<longleftrightarrow> (stableSinceRef s \<noteq> 0) = (lastDetectedLabelRef s \<noteq> [])"

text \<open>A tick with a label that is not empty, at an instant other than 0.\<close>

fun labelled :: "event \<Rightarrow> bool" where
  "labelled (Tick className probability now) \<longleftrightarrow> trim className \<noteq> [] \<and> now \<noteq> 0"
| "labelled (Timeout now) \<longleftrightarrow> True"

text \<open>A text that begins with a space.\<close>

definition leadingSpace :: "string \<Rightarrow> bool" where
  "leadingSpace t \<longleftrightarrow> t \<noteq> [] \<and> hd t = CHR '' ''"

section \<open>Properties\<close>

lemma loop_threshold: "threshold (fst (loop hold cn p now s)) = threshold s"
  by (simp add: loop_def Let_def appendText_def setRecognition_def)

subsection \<open>One pass of the loop\<close>

lemma loop_hold:
  assumes "threshold s \<le> p" "lastDetectedLabelRef s = trim cn" "\<not> commits hold (trim cn) s now"
  shows "loop hold cn p now s = (setRecognition (trim cn) p s, None)"
  using assms by (auto simp add: loop_def Let_def setRecognition_def commits_def released_def)

lemma loop_commit:
  assumes "threshold s \<le> p" "lastDetectedLabelRef s = trim cn" "commits hold (trim cn) s now"
  shows "loop hold cn p now s =
    (appendText (toUpperCase (trim cn)) (setRecognition (trim cn) p s)
       \<lparr>lastEmittedLabelRef := trim cn, releaseStartRef := 0,
        letterGapTimerRef := Some (now + LETTER_GAP_MS)\<rparr>,
     Some (toUpperCase (trim cn)))"
  using assms by (auto simp add: loop_def Let_def setRecognition_def commits_def released_def)

lemma loop_track:
  assumes "threshold s \<le> p" "lastDetectedLabelRef s \<noteq> trim cn"
  shows "loop hold cn p now s =
           loop hold cn p now (s\<lparr>lastDetectedLabelRef := trim cn, stableSinceRef := now\<rparr>)"
  using assms by (auto simp add: loop_def Let_def setRecognition_def)

lemma timeout_refs:
  "threshold (fst (letterGapTimeout now s)) = threshold s"
  "lastDetectedLabelRef (fst (letterGapTimeout now s)) = lastDetectedLabelRef s"
  "stableSinceRef (fst (letterGapTimeout now s)) = stableSinceRef s"
  "lastEmittedLabelRef (fst (letterGapTimeout now s)) = lastEmittedLabelRef s"
  "releaseStartRef (fst (letterGapTimeout now s)) = releaseStartRef s"
  by (simp_all add: letterGapTimeout_def Let_def appendText_def split: option.splits)

subsection \<open>Runs of ticks that report one label\<close>

lemma no_repeat:
  assumes "\<forall>e\<in>set evs. sign_held (threshold s) L e"
    and "lastEmittedLabelRef s = L" and "releaseStartRef s = 0"
  shows "emitted hold s evs = []"
  using assms
proof (induction evs arbitrary: s)
  case Nil
  then show ?case by simp
next
  case (Cons e es)
  show ?case
  proof (cases e)
    case (Tick cn p now)
    then have e: "trim cn = L" "threshold s \<le> p" using Cons.prems(1) by auto
    let ?s' = "fst (loop hold cn p now s)"
    have out: "snd (loop hold cn p now s) = None"
      using e Cons.prems(2,3) by (simp add: loop_def Let_def setRecognition_def)
    have keep: "threshold ?s' = threshold s" "lastEmittedLabelRef ?s' = L" "releaseStartRef ?s' = 0"
      using e Cons.prems(2,3) by (simp_all add: loop_def Let_def setRecognition_def)
    have "emitted hold ?s' es = []"
      using Cons.prems(1) keep by (intro Cons.IH) simp_all
    then show ?thesis using Tick out by simp
  next
    case (Timeout now)
    let ?s' = "fst (letterGapTimeout now s)"
    have "emitted hold ?s' es = []"
      using Cons.prems by (intro Cons.IH) (simp_all add: timeout_refs)
    then show ?thesis using Timeout by simp
  qed
qed

lemma reports_sign_held: "reports thr L e \<Longrightarrow> sign_held thr L e"
  by (cases e) simp_all

lemma tracked_run:
  assumes "\<forall>e\<in>set evs. reports (threshold s) L e" and "lastDetectedLabelRef s = L"
  shows "emitted hold s evs =
           (case find (\<lambda>e. commits hold L s (instant e)) evs of
              None \<Rightarrow> []
            | Some e \<Rightarrow> [(instant e, toUpperCase L)])"
  using assms
proof (induction evs arbitrary: s)
  case Nil
  then show ?case by simp
next
  case (Cons e es)
  then obtain cn p now where e: "e = Tick cn p now" "trim cn = L" "threshold s \<le> p"
    by (cases e) auto
  show ?case
  proof (cases "commits hold L s now")
    case True
    let ?s' = "fst (loop hold cn p now s)"
    have l: "snd (loop hold cn p now s) = Some (toUpperCase L)"
      "threshold ?s' = threshold s" "lastEmittedLabelRef ?s' = L" "releaseStartRef ?s' = 0"
      using loop_commit [of s p cn hold now] e True Cons.prems(2)
      by (simp_all add: appendText_def setRecognition_def)
    have "emitted hold ?s' es = []"
      using Cons.prems(1) l by (intro no_repeat) (simp_all add: reports_sign_held)
    then show ?thesis using e True l by simp
  next
    case False
    let ?s' = "setRecognition L p s"
    have l: "loop hold cn p now s = (?s', None)"
      using loop_hold [of s p cn hold now] e False Cons.prems(2) by simp
    have same: "\<And>t. commits hold L ?s' t = commits hold L s t"
      by (simp add: commits_def released_def setRecognition_def)
    have "emitted hold ?s' es =
           (case find (\<lambda>e. commits hold L ?s' (instant e)) es of
              None \<Rightarrow> []
            | Some e \<Rightarrow> [(instant e, toUpperCase L)])"
      using Cons.prems by (intro Cons.IH) (simp_all add: setRecognition_def)
    then show ?thesis using e False l by (simp add: same)
  qed
qed

lemma emitted_tracking:
  assumes "\<forall>e\<in>set evs. reports (threshold s) L e"
  shows "emitted hold s evs = emitted hold (tracking L evs s) evs"
proof (cases "lastDetectedLabelRef s = L \<or> evs = []")
  case True
  then show ?thesis by (auto simp add: tracking_def)
next
  case False
  then obtain e es where evs: "evs = e # es" by (cases evs) auto
  with assms obtain cn p now where e: "e = Tick cn p now" "trim cn = L" "threshold s \<le> p"
    by (cases e) auto
  show ?thesis
    using False evs e loop_track [of s p cn hold now] by (simp add: tracking_def)
qed

lemma same_label_run:
  assumes "\<forall>e\<in>set evs. reports (threshold s) L e"
  shows "emitted hold s evs =
           (case find (\<lambda>e. commits hold L (tracking L evs s) (instant e)) evs of
              None \<Rightarrow> []
            | Some e \<Rightarrow> [(instant e, toUpperCase L)])"
proof (cases "evs = []")
  case True
  then show ?thesis by simp
next
  case False
  have "\<forall>e\<in>set evs. reports (threshold (tracking L evs s)) L e"
    using assms by (simp add: tracking_def)
  moreover have "lastDetectedLabelRef (tracking L evs s) = L"
    using False by (simp add: tracking_def)
  ultimately show ?thesis
    using emitted_tracking [OF assms, of hold] tracked_run [of evs "tracking L evs s" L hold]
    by simp
qed

lemma commits_tracking:
  "evs \<noteq> [] \<Longrightarrow> commits hold L (tracking L evs s) now \<longleftrightarrow>
     hold \<le> now - trackedSince L evs s \<and> (L \<noteq> lastEmittedLabelRef s \<or> released s now)"
  by (simp add: commits_def tracking_def trackedSince_def released_def)

text \<open>
  C1, minimum dwell. In a run of ticks that all report the label \<open>L\<close> at or above the
  threshold, every commit happens at a tick whose dwell \<open>now - trackedSince\<close> has reached
  \<open>hold\<close>, so none happens while the dwell is shorter. If at the first tick \<open>k\<close> where the
  dwell reaches \<open>hold\<close> the label differs from the last emitted one or the release has
  completed, the run commits exactly once, at that tick, and appends \<open>L\<close> in upper case.
  The witness is the scenario of the specification: threshold 0.95, hold 600, ticks at
  0, 100, ..., 1000 reporting A at 0.97; the only commit is A at 600.
\<close>

theorem minimum_dwell:
  assumes "\<forall>e\<in>set evs. reports (threshold s) L e"
  shows "(\<forall>(now, t) \<in> set (emitted hold s evs). hold \<le> now - trackedSince L evs s) \<and>
         (\<forall>k<length evs.
            (\<forall>i<k. instant (evs ! i) - trackedSince L evs s < hold) \<and>
            hold \<le> instant (evs ! k) - trackedSince L evs s \<and>
            (L \<noteq> lastEmittedLabelRef s \<or> released s (instant (evs ! k))) \<longrightarrow>
            emitted hold s evs = [(instant (evs ! k), toUpperCase L)])"
proof (intro conjI allI impI)
  show "\<forall>(now, t) \<in> set (emitted hold s evs). hold \<le> now - trackedSince L evs s"
  proof (cases "find (\<lambda>e. commits hold L (tracking L evs s) (instant e)) evs")
    case None
    then show ?thesis using same_label_run [OF assms, of hold] by simp
  next
    case (Some e)
    then have "evs \<noteq> []" "commits hold L (tracking L evs s) (instant e)"
      by (auto simp add: find_Some_iff)
    then show ?thesis
      using Some same_label_run [OF assms, of hold] by (simp add: commits_tracking)
  qed
next
  fix k
  assume k: "k < length evs"
    and h: "(\<forall>i<k. instant (evs ! i) - trackedSince L evs s < hold) \<and>
            hold \<le> instant (evs ! k) - trackedSince L evs s \<and>
            (L \<noteq> lastEmittedLabelRef s \<or> released s (instant (evs ! k)))"
  from k have ne: "evs \<noteq> []" by auto
  have "find (\<lambda>e. commits hold L (tracking L evs s) (instant e)) evs = Some (evs ! k)"
    unfolding find_Some_iff using k h
    by (intro exI [of _ k]) (auto simp add: commits_tracking [OF ne])
  then show "emitted hold s evs = [(instant (evs ! k), toUpperCase L)]"
    using same_label_run [OF assms, of hold] by simp
qed

theorem minimum_dwell_witness:
  "list_all (reports (threshold (ASLTranslator [])) ''A'')
     (map (Tick ''A'' 0.97) [0, 100, 200, 300, 400, 500, 600, 700, 800, 900, 1000]) \<and>
   emitted 600 (ASLTranslator [])
     (map (Tick ''A'' 0.97) [0, 100, 200, 300, 400, 500, 600, 700, 800, 900, 1000]) =
     [(600, ''A'')]"
proof -
  let ?evs = "map (Tick ''A'' 0.97) [0, 100, 200, 300, 400, 500, 600, 700, 800, 900, 1000]"
  let ?s = "ASLTranslator []"
  have h: "\<forall>e\<in>set ?evs. reports (threshold ?s) ''A'' e"
    by code_simp
  have since: "trackedSince ''A'' ?evs ?s = 0"
    by code_simp
  have k: "(6::nat) < length ?evs" by simp
  have pre: "\<forall>i<6. instant (?evs ! i) - trackedSince ''A'' ?evs ?s < 600"
    unfolding since by (simp add: less_Suc_eq eval_nat_numeral)
  have at: "600 \<le> instant (?evs ! 6) - trackedSince ''A'' ?evs ?s"
    unfolding since by simp
  have gate: "''A'' \<noteq> lastEmittedLabelRef ?s"
    by code_simp
  have up: "toUpperCase ''A'' = ''A''"
    by code_simp
  have "emitted 600 ?s ?evs = [(instant (?evs ! 6), toUpperCase ''A'')]"
    using minimum_dwell [OF h, of 600] k pre at gate by blast
  then show ?thesis using h up by (simp add: list_all_iff)
qed

text \<open>
  C2, no duplicate without release. After a tick has committed its label, as long as every
  later tick reports the same label at or above the threshold (the timeout may come due
  in between), no tick commits again, however late the ticks are.
\<close>

theorem no_duplicate_without_release:
  assumes "snd (loop hold className probability now s) = Some t"
    and "\<forall>e\<in>set evs. sign_held (threshold s) (trim className) e"
  shows "emitted hold (fst (loop hold className probability now s)) evs = []"
proof -
  let ?s' = "fst (loop hold className probability now s)"
  have "lastEmittedLabelRef ?s' = trim className \<and> releaseStartRef ?s' = 0"
    using assms(1)
    by (auto simp add: loop_def Let_def appendText_def setRecognition_def split: if_splits)
  then show ?thesis
    using assms(2) by (intro no_repeat [of _ _ "trim className"]) (simp_all add: loop_threshold)
qed

theorem no_duplicate_without_release_witness:
  "snd (loop 600 ''A'' 0.97 600
          (run 600 (ASLTranslator []) (map (Tick ''A'' 0.97) [0, 100, 200, 300, 400, 500]))) =
     Some ''A'' \<and>
   list_all
     (sign_held
        (threshold (run 600 (ASLTranslator []) (map (Tick ''A'' 0.97) [0, 100, 200, 300, 400, 500])))
        (trim ''A''))
     [Tick ''A'' 0.97 700, Tick ''A'' 0.99 800, Timeout 3600, Tick ''A'' 0.97 90000] \<and>
   emitted 600
     (fst (loop 600 ''A'' 0.97 600
        (run 600 (ASLTranslator []) (map (Tick ''A'' 0.97) [0, 100, 200, 300, 400, 500]))))
     [Tick ''A'' 0.97 700, Tick ''A'' 0.99 800, Timeout 3600, Tick ''A'' 0.97 90000] = []"
proof -
  let ?s = "run 600 (ASLTranslator []) (map (Tick ''A'' 0.97) [0, 100, 200, 300, 400, 500])"
  let ?evs = "[Tick ''A'' 0.97 700, Tick ''A'' 0.99 800, Timeout 3600, Tick ''A'' 0.97 90000]"
  have a: "snd (loop 600 ''A'' 0.97 600 ?s) = Some ''A''"
    by code_simp
  have b: "\<forall>e\<in>set ?evs. sign_held (threshold ?s) (trim ''A'') e"
    by code_simp
  show ?thesis
    using a b no_duplicate_without_release [OF a b] by (simp add: list_all_iff)
qed

subsection \<open>Release before a repeated label\<close>

lemma run_append: "run hold s (xs @ ys) = run hold (run hold s xs) ys"
  by (induction xs arbitrary: s) simp_all

lemma emitted_append:
  "emitted hold s (xs @ ys) = emitted hold s xs @ emitted hold (run hold s xs) ys"
  by (induction xs arbitrary: s) simp_all

lemma loop_Some:
  assumes "snd (loop hold cn p now s) = Some t"
  shows "threshold s \<le> p" and "t = toUpperCase (trim cn)"
    and "trim cn \<noteq> lastEmittedLabelRef s \<or> released s now"
    and "lastEmittedLabelRef (fst (loop hold cn p now s)) = trim cn"
    and "releaseStartRef (fst (loop hold cn p now s)) = 0"
    and "letterGapTimerRef (fst (loop hold cn p now s)) = Some (now + LETTER_GAP_MS)"
  using assms
  by (auto simp add: loop_def Let_def appendText_def setRecognition_def released_def
      split: if_splits)

lemma loop_None:
  assumes "snd (loop hold cn p now s) = None"
  shows "lastEmittedLabelRef (fst (loop hold cn p now s)) = lastEmittedLabelRef s"
    and "letterGapTimerRef (fst (loop hold cn p now s)) = letterGapTimerRef s"
    and "text' (fst (loop hold cn p now s)) = text' s"
    and "releaseStartRef (fst (loop hold cn p now s)) = releaseStartRef s \<or>
         p < threshold s \<and> releaseStartRef (fst (loop hold cn p now s)) = now"
  using assms
  by (auto simp add: loop_def Let_def appendText_def setRecognition_def split: if_splits)

lemma quiet_run:
  assumes "emitted hold s evs = []"
  shows "lastEmittedLabelRef (run hold s evs) = lastEmittedLabelRef s \<and>
         (releaseStartRef (run hold s evs) = releaseStartRef s \<or>
          (\<exists>e\<in>set evs. below (threshold s) e \<and> instant e = releaseStartRef (run hold s evs)))"
  using assms
proof (induction evs arbitrary: s)
  case Nil
  then show ?case by simp
next
  case (Cons e es)
  show ?case
  proof (cases e)
    case (Tick cn p now)
    let ?s' = "fst (loop hold cn p now s)"
    from Cons.prems Tick have out: "snd (loop hold cn p now s) = None"
      and rest: "emitted hold ?s' es = []"
      by (auto split: option.splits)
    note IH = Cons.IH [OF rest]
    show ?thesis
      using IH loop_None(1,4) [OF out] Tick by (auto simp add: loop_threshold)
  next
    case (Timeout now)
    let ?s' = "fst (letterGapTimeout now s)"
    from Cons.prems Timeout have rest: "emitted hold ?s' es = []" by simp
    show ?thesis
      using Cons.IH [OF rest] Timeout by (auto simp add: timeout_refs)
  qed
qed

text \<open>
  C3, as amended. Between two commits of the same label with no commit in between there
  is a tick below the threshold, and it lies at least \<open>RELEASE_MS\<close> = 300 ms before the
  second commit. The release timer starts at the first tick below the threshold after the
  previous commit and keeps running when the confidence comes back.
\<close>

theorem release_before_repeat:
  assumes "snd (loop hold className probability now s) = Some t"
    and "emitted hold (fst (loop hold className probability now s)) mid = []"
    and "snd (loop hold className' probability' now'
                (run hold (fst (loop hold className probability now s)) mid)) = Some t'"
    and "trim className' = trim className"
  shows "\<exists>e\<in>set mid. below (threshold s) e \<and> RELEASE_MS \<le> now' - instant e"
proof -
  let ?s1 = "fst (loop hold className probability now s)"
  let ?s2 = "run hold ?s1 mid"
  have s1: "lastEmittedLabelRef ?s1 = trim className" "releaseStartRef ?s1 = 0"
    using loop_Some(4,5) [OF assms(1)] by simp_all
  have q: "lastEmittedLabelRef ?s2 = trim className"
    "releaseStartRef ?s2 = 0 \<or>
       (\<exists>e\<in>set mid. below (threshold ?s1) e \<and> instant e = releaseStartRef ?s2)"
    using quiet_run [OF assms(2)] s1 by simp_all
  have "released ?s2 now'"
    using loop_Some(3) [OF assms(3)] q(1) assms(4) by simp
  then have r: "0 < releaseStartRef ?s2" "RELEASE_MS \<le> now' - releaseStartRef ?s2"
    by (simp_all add: released_def)
  with q(2) obtain e where "e \<in> set mid" "below (threshold ?s1) e" "instant e = releaseStartRef ?s2"
    by auto
  then show ?thesis using r(2) by (auto simp add: loop_threshold)
qed

text \<open>
  C3, as stated, fails. A is committed at 600, a single tick at 650 is below the threshold,
  and A is back at 0.97 from 700 on: A is committed again at 1300, although between the
  two commits no two ticks at or above the threshold are more than 100 ms apart, so the
  confidence never stays below the threshold for 300 ms.
\<close>

theorem release_before_repeat_counterexample:
  "emitted 600 (ASLTranslator [])
     (map (Tick ''A'' 0.97) [0, 100, 200, 300, 400, 500, 600] @
      [Tick ''A'' 0.80 650] @
      map (Tick ''A'' 0.97) [700, 800, 900, 1000, 1100, 1200, 1300]) =
     [(600, ''A''), (1300, ''A'')] \<and>
   longest_release (threshold (ASLTranslator []))
     ([Tick ''A'' 0.97 600, Tick ''A'' 0.80 650] @
      map (Tick ''A'' 0.97) [700, 800, 900, 1000, 1100, 1200, 1300]) = 100 \<and>
   (100::int) < RELEASE_MS"
  by code_simp

theorem release_before_repeat_witness:
  "snd (loop 600 ''A'' 0.97 600
          (run 600 (ASLTranslator []) (map (Tick ''A'' 0.97) [0, 100, 200, 300, 400, 500]))) =
     Some ''A'' \<and>
   emitted 600
     (fst (loop 600 ''A'' 0.97 600
        (run 600 (ASLTranslator []) (map (Tick ''A'' 0.97) [0, 100, 200, 300, 400, 500]))))
     (Tick ''A'' 0.80 650 # map (Tick ''A'' 0.97) [700, 800, 900, 1000, 1100, 1200]) = [] \<and>
   snd (loop 600 ''A'' 0.97 1300
     (run 600
       (fst (loop 600 ''A'' 0.97 600
         (run 600 (ASLTranslator []) (map (Tick ''A'' 0.97) [0, 100, 200, 300, 400, 500]))))
       (Tick ''A'' 0.80 650 # map (Tick ''A'' 0.97) [700, 800, 900, 1000, 1100, 1200]))) =
     Some ''A'' \<and>
   list_ex (\<lambda>e. below (threshold (run 600 (ASLTranslator [])
                    (map (Tick ''A'' 0.97) [0, 100, 200, 300, 400, 500]))) e \<and>
                RELEASE_MS \<le> 1300 - instant e)
     (Tick ''A'' 0.80 650 # map (Tick ''A'' 0.97) [700, 800, 900, 1000, 1100, 1200])"
proof -
  let ?s = "run 600 (ASLTranslator []) (map (Tick ''A'' 0.97) [0, 100, 200, 300, 400, 500])"
  let ?mid = "Tick ''A'' 0.80 650 # map (Tick ''A'' 0.97) [700, 800, 900, 1000, 1100, 1200]"
  have a: "snd (loop 600 ''A'' 0.97 600 ?s) = Some ''A''"
    by code_simp
  have b: "emitted 600 (fst (loop 600 ''A'' 0.97 600 ?s)) ?mid = []"
    by code_simp
  have c: "snd (loop 600 ''A'' 0.97 1300 (run 600 (fst (loop 600 ''A'' 0.97 600 ?s)) ?mid)) =
             Some ''A''"
    by code_simp
  have d: "trim ''A'' = trim ''A''" by simp
  show ?thesis
    using a b c release_before_repeat [OF a b c d] unfolding list_ex_iff by blast
qed

lemma loop_below:
  "p < threshold s \<Longrightarrow>
   loop hold cn p now s =
     (s\<lparr>releaseStartRef := (if releaseStartRef s = 0 then now else releaseStartRef s),
        lastDetectedLabelRef := [], stableSinceRef := 0\<rparr>, None)"
  by (simp add: loop_def)

lemma run_threshold: "threshold (run hold s evs) = threshold s"
proof (induction evs arbitrary: s)
  case Nil
  then show ?case by simp
next
  case (Cons e es)
  then show ?case by (cases e) (simp_all add: loop_threshold timeout_refs)
qed

lemma below_run:
  assumes "\<forall>e\<in>set bs. below (threshold s) e"
  shows "emitted hold s bs = []"
    and "lastEmittedLabelRef (run hold s bs) = lastEmittedLabelRef s"
    and "releaseStartRef s \<noteq> 0 \<Longrightarrow> releaseStartRef (run hold s bs) = releaseStartRef s"
    and "bs \<noteq> [] \<Longrightarrow> lastDetectedLabelRef (run hold s bs) = [] \<and> stableSinceRef (run hold s bs) = 0"
  using assms
proof (induction bs arbitrary: s)
  case Nil
  {
    case 1 show ?case by simp
  next
    case 2 show ?case by simp
  next
    case 3 show ?case by simp
  next
    case 4 then show ?case by simp
  }
next
  case (Cons e es)
  {
    case 1
    then obtain cn p now where e: "e = Tick cn p now" "p < threshold s" by (cases e) auto
    have "emitted hold (fst (loop hold cn p now s)) es = []"
      using 1 by (intro Cons.IH(1)) (simp add: loop_threshold)
    then show ?case using e by (simp add: loop_below)
  next
    case 2
    then obtain cn p now where e: "e = Tick cn p now" "p < threshold s" by (cases e) auto
    have "lastEmittedLabelRef (run hold (fst (loop hold cn p now s)) es) =
            lastEmittedLabelRef (fst (loop hold cn p now s))"
      using 2 by (intro Cons.IH(2)) (simp add: loop_threshold)
    then show ?case using e by (simp add: loop_below)
  next
    case 3
    then obtain cn p now where e: "e = Tick cn p now" "p < threshold s" by (cases e) auto
    have "releaseStartRef (run hold (fst (loop hold cn p now s)) es) =
            releaseStartRef (fst (loop hold cn p now s))"
      using 3 e by (intro Cons.IH(3)) (simp_all add: loop_threshold loop_below)
    then show ?case using e 3 by (simp add: loop_below)
  next
    case 4
    then obtain cn p now where e: "e = Tick cn p now" "p < threshold s" by (cases e) auto
    show ?case
    proof (cases "es = []")
      case True
      then show ?thesis using e by (simp add: loop_below)
    next
      case False
      have "lastDetectedLabelRef (run hold (fst (loop hold cn p now s)) es) = [] \<and>
            stableSinceRef (run hold (fst (loop hold cn p now s)) es) = 0"
        using 4 False by (intro Cons.IH(4)) (simp_all add: loop_threshold)
      then show ?thesis using e by simp
    qed
  }
qed

lemma below_run_start:
  assumes "\<forall>e\<in>set bs. below (threshold s) e" and "bs \<noteq> []"
    and "releaseStartRef s = 0" and "instant (hd bs) \<noteq> 0"
  shows "releaseStartRef (run hold s bs) = instant (hd bs)"
proof -
  from assms(2) obtain e es where bs: "bs = e # es" by (cases bs) auto
  with assms(1) obtain cn p now where e: "e = Tick cn p now" "p < threshold s"
    by (cases e) auto
  let ?s' = "fst (loop hold cn p now s)"
  have r: "releaseStartRef ?s' = now" using e assms(3) by (simp add: loop_below)
  have "releaseStartRef (run hold ?s' es) = releaseStartRef ?s'"
    using assms(1,4) bs e r by (intro below_run(3)) (simp_all add: loop_threshold)
  then show ?thesis using bs e r by simp
qed

lemma sorted_hd_le:
  assumes "sorted (map instant as)" and "e \<in> set as"
  shows "instant (hd as) \<le> instant e"
proof -
  from assms(2) obtain a r where as: "as = a # r" by (cases as) auto
  then show ?thesis using assms by auto
qed

text \<open>
  C4, repeat after release. The label \<open>L\<close> is committed; then the ticks \<open>bs\<close> are below
  the threshold, the first of them at least \<open>RELEASE_MS\<close> before the first of the ticks
  \<open>as\<close>, which all report \<open>L\<close> at or above the threshold over at least \<open>hold\<close>
  milliseconds. Then exactly one commit follows, of \<open>L\<close>, at the first tick of \<open>as\<close> where
  the dwell reaches \<open>hold\<close>. Instants are readings of \<open>Date.now()\<close>: positive, and not
  decreasing over \<open>as\<close>. The witness is the doubled letter of the specification: A at 600,
  0.80 from 650, A at 0.97 from 950 to 1550, and the second A is committed at 1550.
\<close>

theorem repeat_after_release:
  assumes commit: "snd (loop hold className probability now s) = Some t"
    and bs: "bs \<noteq> []" "\<forall>e\<in>set bs. below (threshold s) e"
    and as: "as \<noteq> []" "\<forall>e\<in>set as. reports (threshold s) (trim className) e"
    and pos: "0 < instant (hd bs)"
    and rel: "RELEASE_MS \<le> instant (hd as) - instant (hd bs)"
    and mono: "sorted (map instant as)"
    and held: "hold \<le> instant (last as) - instant (hd as)"
  shows "\<exists>k<length as.
           (\<forall>i<k. instant (as ! i) - (if trim className = [] then 0 else instant (hd as)) < hold) \<and>
           hold \<le> instant (as ! k) - (if trim className = [] then 0 else instant (hd as)) \<and>
           emitted hold (fst (loop hold className probability now s)) (bs @ as) =
             [(instant (as ! k), toUpperCase (trim className))]"
proof -
  let ?L = "trim className"
  let ?s1 = "fst (loop hold className probability now s)"
  let ?s2 = "run hold ?s1 bs"
  let ?since = "if ?L = [] then 0 else instant (hd as)"
  have thr1: "threshold ?s1 = threshold s" by (simp add: loop_threshold)
  have s1: "lastEmittedLabelRef ?s1 = ?L" "releaseStartRef ?s1 = 0"
    using loop_Some(4,5) [OF commit] by simp_all
  have b1: "\<forall>e\<in>set bs. below (threshold ?s1) e" using bs(2) thr1 by simp
  have s2: "emitted hold ?s1 bs = []" "lastEmittedLabelRef ?s2 = ?L"
    "lastDetectedLabelRef ?s2 = []" "stableSinceRef ?s2 = 0"
    "releaseStartRef ?s2 = instant (hd bs)"
    using below_run(1,2,4) [OF b1, of hold] below_run_start [OF b1 bs(1) s1(2), of hold] s1(1) bs(1) pos
    by simp_all
  have a2: "\<forall>e\<in>set as. reports (threshold ?s2) ?L e"
    using as(2) thr1 by (simp add: run_threshold)
  have since: "trackedSince ?L as ?s2 = ?since"
    using s2(3,4) by (auto simp add: trackedSince_def)
  have since_le: "?since \<le> instant (hd as)"
    using pos rel by (simp add: RELEASE_MS_def)
  have gate: "released ?s2 (instant e)" if "e \<in> set as" for e
    using sorted_hd_le [OF mono that] pos rel s2(5) by (simp add: released_def)
  have c: "commits hold ?L (tracking ?L as ?s2) (instant e) \<longleftrightarrow> hold \<le> instant e - ?since"
    if "e \<in> set as" for e
    using gate [OF that] since by (simp add: commits_tracking [OF as(1)])
  have "last as \<in> set as" using as(1) by simp
  moreover have "hold \<le> instant (last as) - ?since" using held since_le by linarith
  ultimately have "\<exists>e\<in>set as. commits hold ?L (tracking ?L as ?s2) (instant e)"
    using c by blast
  then obtain e where f: "find (\<lambda>e. commits hold ?L (tracking ?L as ?s2) (instant e)) as = Some e"
    by (cases "find (\<lambda>e. commits hold ?L (tracking ?L as ?s2) (instant e)) as")
      (auto simp add: find_None_iff)
  then obtain k where k: "k < length as" "e = as ! k"
    "commits hold ?L (tracking ?L as ?s2) (instant (as ! k))"
    "\<forall>j<k. \<not> commits hold ?L (tracking ?L as ?s2) (instant (as ! j))"
    unfolding find_Some_iff by blast
  have "emitted hold ?s2 as = [(instant (as ! k), toUpperCase ?L)]"
    using same_label_run [OF a2, of hold] f k(2) by simp
  then have "emitted hold ?s1 (bs @ as) = [(instant (as ! k), toUpperCase ?L)]"
    using s2(1) by (simp add: emitted_append)
  moreover have "hold \<le> instant (as ! k) - ?since"
    using k(1,3) c [of "as ! k"] by simp
  moreover have "\<forall>i<k. instant (as ! i) - ?since < hold"
  proof (intro allI impI)
    fix i assume "i < k"
    then have "as ! i \<in> set as" "\<not> commits hold ?L (tracking ?L as ?s2) (instant (as ! i))"
      using k(1,4) by simp_all
    then show "instant (as ! i) - ?since < hold" using c [of "as ! i"] by simp
  qed
  ultimately show ?thesis using k(1) by blast
qed

theorem repeat_after_release_witness:
  "snd (loop 600 ''A'' 0.97 600
          (run 600 (ASLTranslator []) (map (Tick ''A'' 0.97) [0, 100, 200, 300, 400, 500]))) =
     Some ''A'' \<and>
   list_all
     (below (threshold (run 600 (ASLTranslator [])
        (map (Tick ''A'' 0.97) [0, 100, 200, 300, 400, 500]))))
     (map (Tick ''A'' 0.80) [650, 750, 850]) \<and>
   list_all
     (reports (threshold (run 600 (ASLTranslator [])
        (map (Tick ''A'' 0.97) [0, 100, 200, 300, 400, 500]))) (trim ''A''))
     (map (Tick ''A'' 0.97) [950, 1050, 1150, 1250, 1350, 1450, 1550]) \<and>
   emitted 600
     (fst (loop 600 ''A'' 0.97 600
        (run 600 (ASLTranslator []) (map (Tick ''A'' 0.97) [0, 100, 200, 300, 400, 500]))))
     (map (Tick ''A'' 0.80) [650, 750, 850] @
      map (Tick ''A'' 0.97) [950, 1050, 1150, 1250, 1350, 1450, 1550]) =
     [(1550, ''A'')] \<and>
   emitted 600 (ASLTranslator [])
     (map (Tick ''A'' 0.97) [0, 100, 200, 300, 400, 500, 600] @
      map (Tick ''A'' 0.80) [650, 750, 850] @
      map (Tick ''A'' 0.97) [950, 1050, 1150, 1250, 1350, 1450, 1550]) =
     [(600, ''A''), (1550, ''A'')]"
proof -
  let ?s = "run 600 (ASLTranslator []) (map (Tick ''A'' 0.97) [0, 100, 200, 300, 400, 500])"
  let ?bs = "map (Tick ''A'' 0.80) [650, 750, 850]"
  let ?as = "map (Tick ''A'' 0.97) [950, 1050, 1150, 1250, 1350, 1450, 1550]"
  have commit: "snd (loop 600 ''A'' 0.97 600 ?s) = Some ''A''"
    by code_simp
  have bs: "?bs \<noteq> []" "\<forall>e\<in>set ?bs. below (threshold ?s) e"
    by code_simp+
  have as: "?as \<noteq> []" "\<forall>e\<in>set ?as. reports (threshold ?s) (trim ''A'') e"
    by code_simp+
  have pos: "0 < instant (hd ?bs)"
    by simp
  have rel: "RELEASE_MS \<le> instant (hd ?as) - instant (hd ?bs)"
    by (simp add: RELEASE_MS_def)
  have mono: "sorted (map instant ?as)"
    by simp
  have held: "600 \<le> instant (last ?as) - instant (hd ?as)"
    by simp
  have up: "toUpperCase (trim ''A'') = ''A''"
    by code_simp
  obtain k where k: "k < length ?as" "600 \<le> instant (?as ! k) - instant (hd ?as)"
    "emitted 600 (fst (loop 600 ''A'' 0.97 600 ?s)) (?bs @ ?as) = [(instant (?as ! k), ''A'')]"
    using repeat_after_release [OF commit bs as pos rel mono held] up
    by (auto simp add: trim_def isWhiteSpace_def)
  from k(1) have "k \<in> {0, 1, 2, 3, 4, 5, 6}" by auto
  with k(2) have "k = 6" by auto
  with k(3) have one: "emitted 600 (fst (loop 600 ''A'' 0.97 600 ?s)) (?bs @ ?as) = [(1550, ''A'')]"
    by simp
  have all: "emitted 600 (ASLTranslator [])
     (map (Tick ''A'' 0.97) [0, 100, 200, 300, 400, 500, 600] @ ?bs @ ?as) =
     [(600, ''A''), (1550, ''A'')]"
    by code_simp
  show ?thesis
    using commit bs(2) as(2) one all unfolding list_all_iff by blast
qed

subsection \<open>A tick below the threshold\<close>

text \<open>
  C7, no commit below the threshold. A tick whose confidence is below the threshold appends
  nothing and leaves the text as it is, clears the tracked label and the instant it is
  tracked since, and starts the release timer at the current instant exactly when the
  timer is unset; a timer that runs is left alone.
\<close>

theorem no_sub_threshold_commit:
  assumes "probability < threshold s"
  shows "snd (loop hold className probability now s) = None \<and>
         emitted hold s [Tick className probability now] = [] \<and>
         text' (fst (loop hold className probability now s)) = text' s \<and>
         lastDetectedLabelRef (fst (loop hold className probability now s)) = [] \<and>
         stableSinceRef (fst (loop hold className probability now s)) = 0 \<and>
         releaseStartRef (fst (loop hold className probability now s)) =
           (if releaseStartRef s = 0 then now else releaseStartRef s)"
  using assms by (simp add: loop_def)

theorem no_sub_threshold_commit_witness:
  "(0.80::real) < threshold (ASLTranslator []) \<and>
   snd (loop 600 ''A'' 0.80 650 (ASLTranslator [])) = None \<and>
   lastDetectedLabelRef (fst (loop 600 ''A'' 0.80 650 (ASLTranslator []))) = [] \<and>
   stableSinceRef (fst (loop 600 ''A'' 0.80 650 (ASLTranslator []))) = 0 \<and>
   releaseStartRef (fst (loop 600 ''A'' 0.80 650 (ASLTranslator []))) = 650"
proof -
  have h: "(0.80::real) < threshold (ASLTranslator [])"
    by (simp add: ASLTranslator_def useAslStore_def store.extend_def)
  have r: "releaseStartRef (ASLTranslator []) = 0"
    by (simp add: ASLTranslator_def useAslStore_def store.extend_def app.fields_def)
  show ?thesis
    using h r no_sub_threshold_commit [OF h, of 600 "''A''" 650] by simp
qed

subsection \<open>The setters of the store\<close>





end
